theory Spec2Isabelle
  imports Complex_Main "HOL-Library.Extended_Nat"
begin

section \<open>Data model\<close>

text \<open>
  The development follows \<^verbatim>\<open>dxfnest.py\<close>. Python exceptions are values of
  the type \<open>error\<close>; a function that can raise returns \<open>error + 'a\<close>.

  Coordinates of a bounding box are Python floats read from the drawing; they are
  modelled as (exact) reals. Every property below is about sums and comparisons
  of such coordinates. Sheet dimensions and candidate offsets are integers in
  the drivers (they are arguments and elements of \<^verbatim>\<open>range\<close>) and are
  embedded into the reals where the Sheet compares them with coordinates.

  A \<^verbatim>\<open>Part\<close> is a mutable object shared between the part list and every
  sheet that accepted it, so parts live in an explicit heap (address to object)
  and lists hold addresses. The attribute \<^verbatim>\<open>position\<close> does not exist
  until \<^verbatim>\<open>add_part\<close> assigns it: \<open>None\<close> stands for the missing
  attribute, and reading it raises \<open>AttributeError\<close>.
\<close>

datatype error = ValueError | IndexError | AttributeError

type_synonym 'a result = "error + 'a"

type_synonym bbox = "real \<times> real \<times> real \<times> real"

type_synonym pos = "real \<times> real"

record Part =
  filename :: string
  bounding_box :: bbox
  position :: "pos option"

type_synonym ref = nat

type_synonym heap = "ref \<Rightarrow> Part"

record Sheet =
  width :: real
  height :: real
  parts :: "ref list"

section \<open>Sheet: the placement engine\<close>

definition check_overlap :: "heap \<Rightarrow> ref \<Rightarrow> pos \<Rightarrow> ref \<Rightarrow> bool result" where
  "check_overlap h part pos placed_part =
     (case bounding_box (h part) of (min_x1, min_y1, max_x1, max_y1) \<Rightarrow>
      case pos of (x_offset1, y_offset1) \<Rightarrow>
      case bounding_box (h placed_part) of (min_x2, min_y2, max_x2, max_y2) \<Rightarrow>
      (case position (h placed_part) of
         None \<Rightarrow> Inl AttributeError
       | Some (x_offset2, y_offset2) \<Rightarrow>
          (case (min_x1 + x_offset1, min_y1 + y_offset1, max_x1 + x_offset1, max_y1 + y_offset1) of
             (r1_0, r1_1, r1_2, r1_3) \<Rightarrow>
           case (min_x2 + x_offset2, min_y2 + y_offset2, max_x2 + x_offset2, max_y2 + y_offset2) of
             (r2_0, r2_1, r2_2, r2_3) \<Rightarrow>
           Inr (\<not> (r1_2 \<le> r2_0 \<or> r1_0 \<ge> r2_2 \<or> r1_3 \<le> r2_1 \<or> r1_1 \<ge> r2_3)))))"

text \<open>The loop of \<^verbatim>\<open>can_place\<close> over the parts already on the sheet.\<close>

fun can_place_loop :: "heap \<Rightarrow> ref \<Rightarrow> pos \<Rightarrow> ref list \<Rightarrow> bool result" where
  "can_place_loop h part pos [] = Inr True"
| "can_place_loop h part pos (placed_part # rest) =
     (case check_overlap h part pos placed_part of
        Inl e \<Rightarrow> Inl e
      | Inr True \<Rightarrow> Inr False
      | Inr False \<Rightarrow> can_place_loop h part pos rest)"

definition can_place :: "heap \<Rightarrow> Sheet \<Rightarrow> ref \<Rightarrow> pos \<Rightarrow> bool result" where
  "can_place h sheet part pos =
     (case bounding_box (h part) of (min_x, min_y, max_x, max_y) \<Rightarrow>
      case pos of (x_offset, y_offset) \<Rightarrow>
      if min_x + x_offset < 0 \<or> max_x + x_offset > width sheet \<or>
         min_y + y_offset < 0 \<or> max_y + y_offset > height sheet
      then Inr False
      else can_place_loop h part pos (parts sheet))"

definition add_part :: "heap \<Rightarrow> Sheet \<Rightarrow> ref \<Rightarrow> pos \<Rightarrow> (bool \<times> heap \<times> Sheet) result" where
  "add_part h sheet part pos =
     (case can_place h sheet part pos of
        Inl e \<Rightarrow> Inl e
      | Inr True \<Rightarrow>
          Inr (True, h(part := (h part)\<lparr>position := Some pos\<rparr>),
               sheet\<lparr>parts := parts sheet @ [part]\<rparr>)
      | Inr False \<Rightarrow> Inr (False, h, sheet))"

section \<open>Candidate scan\<close>

text \<open>
  \<^verbatim>\<open>range(0, stop, step)\<close> for a positive step: the multiples of the step
  below \<open>stop\<close>, ascending; empty when \<open>stop \<le> 0\<close>.
\<close>

definition py_range :: "int \<Rightarrow> int \<Rightarrow> int list" where
  "py_range stop step = map (\<lambda>k. int k * step) [0 ..< nat ((stop + step - 1) div step)]"

text \<open>
  The nested loop that \<^verbatim>\<open>fitness\<close> and \<^verbatim>\<open>nest_parts\<close> both contain:
  \<^verbatim>\<open>for x in range(0, sheet_width, 10): for y in range(0, sheet_height, 10):
  if sheet.add_part(part, (x, y)): placed = True; break\<close>, with the second
  \<^verbatim>\<open>break\<close> on \<^verbatim>\<open>placed\<close>. The result carries the flag
  \<^verbatim>\<open>placed\<close>.
\<close>

fun scan_y :: "heap \<Rightarrow> Sheet \<Rightarrow> ref \<Rightarrow> int \<Rightarrow> int list \<Rightarrow> (bool \<times> heap \<times> Sheet) result" where
  "scan_y h sheet part x [] = Inr (False, h, sheet)"
| "scan_y h sheet part x (y # ys) =
     (case add_part h sheet part (of_int x, of_int y) of
        Inl e \<Rightarrow> Inl e
      | Inr (True, h', sheet') \<Rightarrow> Inr (True, h', sheet')
      | Inr (False, h', sheet') \<Rightarrow> scan_y h' sheet' part x ys)"

fun scan_x :: "heap \<Rightarrow> Sheet \<Rightarrow> ref \<Rightarrow> int list \<Rightarrow> int list \<Rightarrow> (bool \<times> heap \<times> Sheet) result" where
  "scan_x h sheet part [] ys = Inr (False, h, sheet)"
| "scan_x h sheet part (x # xs) ys =
     (case scan_y h sheet part x ys of
        Inl e \<Rightarrow> Inl e
      | Inr (True, h', sheet') \<Rightarrow> Inr (True, h', sheet')
      | Inr (False, h', sheet') \<Rightarrow> scan_x h' sheet' part xs ys)"

definition try_place :: "int \<Rightarrow> int \<Rightarrow> heap \<Rightarrow> Sheet \<Rightarrow> ref \<Rightarrow> (bool \<times> heap \<times> Sheet) result" where
  "try_place sheet_width sheet_height h sheet part =
     scan_x h sheet part (py_range sheet_width 10) (py_range sheet_height 10)"

section \<open>Order optimizer\<close>

definition new_sheet :: "int \<Rightarrow> int \<Rightarrow> Sheet" where
  "new_sheet sheet_width sheet_height =
     \<lparr>width = of_int sheet_width, height = of_int sheet_height, parts = []\<rparr>"

text \<open>
  \<^verbatim>\<open>fitness\<close>: the value is \<open>\<infinity>\<close> for \<^verbatim>\<open>float('inf')\<close> and the
  length of \<^verbatim>\<open>sheet.parts\<close> otherwise. \<open>ps\<close> is the list \<^verbatim>\<open>parts\<close>
  of the enclosing function; \<^verbatim>\<open>parts[index]\<close> raises when the index is
  out of range.
\<close>

fun fitness_loop :: "int \<Rightarrow> int \<Rightarrow> ref list \<Rightarrow> heap \<Rightarrow> Sheet \<Rightarrow> nat list \<Rightarrow> (enat \<times> heap) result" where
  "fitness_loop sheet_width sheet_height ps h sheet [] = Inr (enat (length (parts sheet)), h)"
| "fitness_loop sheet_width sheet_height ps h sheet (index # rest) =
     (if index < length ps then
        (case try_place sheet_width sheet_height h sheet (ps ! index) of
           Inl e \<Rightarrow> Inl e
         | Inr (True, h', sheet') \<Rightarrow> fitness_loop sheet_width sheet_height ps h' sheet' rest
         | Inr (False, h', sheet') \<Rightarrow> Inr (\<infinity>, h'))
      else Inl IndexError)"

definition fitness :: "int \<Rightarrow> int \<Rightarrow> ref list \<Rightarrow> heap \<Rightarrow> nat list \<Rightarrow> (enat \<times> heap) result" where
  "fitness sheet_width sheet_height ps h order =
     fitness_loop sheet_width sheet_height ps h (new_sheet sheet_width sheet_height) order"

subsection \<open>The random source\<close>

text \<open>
  The module \<^verbatim>\<open>random\<close> is modelled by an infinite tape of naturals that
  the calls consume from the front. Each call maps the numbers it draws onto
  its range, so that every outcome the call can have is the outcome of some
  tape, and raises \<open>ValueError\<close> where Python does (an empty range, a sample
  larger than the population).
\<close>

type_synonym rng = "nat \<Rightarrow> nat"

definition draw :: "rng \<Rightarrow> nat \<times> rng" where
  "draw g = (g 0, \<lambda>i. g (Suc i))"

definition randint :: "int \<Rightarrow> int \<Rightarrow> rng \<Rightarrow> (int \<times> rng) result" where
  "randint a b g =
     (if a > b then Inl ValueError
      else case draw g of (r, g') \<Rightarrow> Inr (a + int r mod (b - a + 1), g'))"

definition random_float :: "rng \<Rightarrow> real \<times> rng" where
  "random_float g = (case draw g of (r, g') \<Rightarrow> (real (r mod 2 ^ 53) / 2 ^ 53, g'))"

text \<open>\<^verbatim>\<open>random.sample(xs, 2)\<close>: two elements at distinct positions.\<close>

definition sample2 :: "'a list \<Rightarrow> rng \<Rightarrow> (('a \<times> 'a) \<times> rng) result" where
  "sample2 xs g =
     (if length xs < 2 then Inl ValueError
      else case draw g of (r1, g1) \<Rightarrow>
           case draw g1 of (r2, g2) \<Rightarrow>
           let i = r1 mod length xs;
               k = r2 mod (length xs - 1);
               j = (if k < i then k else k + 1)
           in Inr ((xs ! i, xs ! j), g2))"

text \<open>\<^verbatim>\<open>random.sample(pool, len(pool))\<close>: the first argument counts the
  elements still to draw.\<close>

fun sample_all :: "nat \<Rightarrow> nat list \<Rightarrow> rng \<Rightarrow> nat list \<times> rng" where
  "sample_all 0 pool g = ([], g)"
| "sample_all (Suc k) pool g =
     (case draw g of (r, g1) \<Rightarrow>
      let i = r mod length pool in
      case sample_all k (take i pool @ drop (Suc i) pool) g1 of (rest, g2) \<Rightarrow>
        (pool ! i # rest, g2))"

fun initialize_population :: "nat \<Rightarrow> nat \<Rightarrow> rng \<Rightarrow> nat list list \<times> rng" where
  "initialize_population 0 n g = ([], g)"
| "initialize_population (Suc population_size) n g =
     (case sample_all n [0 ..< n] g of (order, g1) \<Rightarrow>
      case initialize_population population_size n g1 of (rest, g2) \<Rightarrow> (order # rest, g2))"

subsection \<open>Crossover and mutation\<close>

definition crossover :: "nat list \<Rightarrow> nat list \<Rightarrow> rng \<Rightarrow> (nat list \<times> rng) result" where
  "crossover parent1 parent2 g =
     (case randint 1 (int (length parent1) - 1) g of
        Inl e \<Rightarrow> Inl e
      | Inr (point, g') \<Rightarrow>
          Inr (take (nat point) parent1 @
               filter (\<lambda>x. x \<notin> set (take (nat point) parent1)) parent2, g'))"

definition mutate :: "real \<Rightarrow> nat list \<Rightarrow> rng \<Rightarrow> (nat list \<times> rng) result" where
  "mutate mutation_rate order g =
     (case random_float g of (u, g1) \<Rightarrow>
      if u < mutation_rate then
        (case sample2 [0 ..< length order] g1 of
           Inl e \<Rightarrow> Inl e
         | Inr ((i, j), g2) \<Rightarrow> Inr ((order[i := order ! j])[j := order ! i], g2))
      else Inr (order, g1))"

subsection \<open>The generation loop\<close>

text \<open>
  \<^verbatim>\<open>population.sort(key=fitness)\<close>: the keys are computed once per
  individual, in list order (each call places parts and so writes the heap),
  and the sort is stable.
\<close>

fun fitness_keys :: "int \<Rightarrow> int \<Rightarrow> ref list \<Rightarrow> heap \<Rightarrow> nat list list \<Rightarrow>
    ((enat \<times> nat list) list \<times> heap) result" where
  "fitness_keys sheet_width sheet_height ps h [] = Inr ([], h)"
| "fitness_keys sheet_width sheet_height ps h (order # rest) =
     (case fitness sheet_width sheet_height ps h order of
        Inl e \<Rightarrow> Inl e
      | Inr (k, h1) \<Rightarrow>
          (case fitness_keys sheet_width sheet_height ps h1 rest of
             Inl e \<Rightarrow> Inl e
           | Inr (keyed, h2) \<Rightarrow> Inr ((k, order) # keyed, h2)))"

definition sort_population :: "int \<Rightarrow> int \<Rightarrow> ref list \<Rightarrow> heap \<Rightarrow> nat list list \<Rightarrow>
    (nat list list \<times> heap) result" where
  "sort_population sheet_width sheet_height ps h population =
     (case fitness_keys sheet_width sheet_height ps h population of
        Inl e \<Rightarrow> Inl e
      | Inr (keyed, h') \<Rightarrow> Inr (map snd (sort_key fst keyed), h'))"

text \<open>The inner loop \<^verbatim>\<open>for _ in range(population_size // 2)\<close>; the first
  argument counts the iterations left.\<close>

fun reproduce :: "real \<Rightarrow> nat \<Rightarrow> nat list list \<Rightarrow> rng \<Rightarrow> (nat list list \<times> rng) result" where
  "reproduce mutation_rate 0 population g = Inr ([], g)"
| "reproduce mutation_rate (Suc k) population g =
     (case sample2 (take 10 population) g of
        Inl e \<Rightarrow> Inl e
      | Inr ((parent1, parent2), g1) \<Rightarrow>
     (case crossover parent1 parent2 g1 of
        Inl e \<Rightarrow> Inl e
      | Inr (child1, g2) \<Rightarrow>
     (case crossover parent2 parent1 g2 of
        Inl e \<Rightarrow> Inl e
      | Inr (child2, g3) \<Rightarrow>
     (case mutate mutation_rate child1 g3 of
        Inl e \<Rightarrow> Inl e
      | Inr (child1', g4) \<Rightarrow>
     (case mutate mutation_rate child2 g4 of
        Inl e \<Rightarrow> Inl e
      | Inr (child2', g5) \<Rightarrow>
     (case reproduce mutation_rate k population g5 of
        Inl e \<Rightarrow> Inl e
      | Inr (rest, g6) \<Rightarrow> Inr (child1' # child2' # rest, g6)))))))"

text \<open>The loop \<^verbatim>\<open>for generation in range(generations)\<close>; the counter is the
  number of generations left. The result is the population the loop leaves.\<close>

fun generation_loop :: "int \<Rightarrow> int \<Rightarrow> ref list \<Rightarrow> nat \<Rightarrow> real \<Rightarrow> nat \<Rightarrow>
    nat list list \<Rightarrow> heap \<Rightarrow> rng \<Rightarrow> (nat list list \<times> heap \<times> rng) result" where
  "generation_loop sheet_width sheet_height ps population_size mutation_rate 0 population h g =
     Inr (population, h, g)"
| "generation_loop sheet_width sheet_height ps population_size mutation_rate (Suc k) population h g =
     (case sort_population sheet_width sheet_height ps h population of
        Inl e \<Rightarrow> Inl e
      | Inr (ranked, h1) \<Rightarrow>
     (case ranked of
        [] \<Rightarrow> Inl IndexError
      | best # _ \<Rightarrow>
     (case fitness sheet_width sheet_height ps h1 best of
        Inl e \<Rightarrow> Inl e
      | Inr (f, h2) \<Rightarrow>
          if f = enat (length ps) then Inr (ranked, h2, g)
          else
            (case reproduce mutation_rate (population_size div 2) ranked g of
               Inl e \<Rightarrow> Inl e
             | Inr (next_generation, g1) \<Rightarrow>
                 generation_loop sheet_width sheet_height ps population_size mutation_rate k
                   next_generation h2 g1))))"

definition genetic_algorithm :: "int \<Rightarrow> int \<Rightarrow> ref list \<Rightarrow> heap \<Rightarrow> nat \<Rightarrow> nat \<Rightarrow> real \<Rightarrow> rng \<Rightarrow>
    (nat list \<times> heap \<times> rng) result" where
  "genetic_algorithm sheet_width sheet_height ps h population_size generations mutation_rate g =
     (case initialize_population population_size (length ps) g of (population, g0) \<Rightarrow>
      (case generation_loop sheet_width sheet_height ps population_size mutation_rate generations
              population h g0 of
         Inl e \<Rightarrow> Inl e
       | Inr (final, h', g') \<Rightarrow>
           (case final of [] \<Rightarrow> Inl IndexError | best # _ \<Rightarrow> Inr (best, h', g'))))"

section \<open>Nesting driver\<close>

text \<open>
  \<^verbatim>\<open>nest_parts\<close> receives the parts as loaded (\<^verbatim>\<open>[Part(file) for file in
  part_files]\<close>; reading the drawings is outside this model). The objects are
  stored at the addresses \<open>0, \<dots>, n - 1\<close>, in list order. The function
  returns the sheet only; the heap is returned with it because the caller
  reads \<^verbatim>\<open>filename\<close> and \<^verbatim>\<open>position\<close> of the parts on the sheet.
\<close>

definition alloc :: "Part list \<Rightarrow> heap" where
  "alloc loaded a =
     (if a < length loaded then loaded ! a
      else \<lparr>filename = [], bounding_box = (0, 0, 0, 0), position = None\<rparr>)"

fun replay_loop :: "int \<Rightarrow> int \<Rightarrow> ref list \<Rightarrow> heap \<Rightarrow> Sheet \<Rightarrow> nat list \<Rightarrow> (Sheet \<times> heap) result" where
  "replay_loop sheet_width sheet_height ps h sheet [] = Inr (sheet, h)"
| "replay_loop sheet_width sheet_height ps h sheet (index # rest) =
     (if index < length ps then
        (case try_place sheet_width sheet_height h sheet (ps ! index) of
           Inl e \<Rightarrow> Inl e
         | Inr (placed, h', sheet') \<Rightarrow> replay_loop sheet_width sheet_height ps h' sheet' rest)
      else Inl IndexError)"

definition nest_parts :: "int \<Rightarrow> int \<Rightarrow> Part list \<Rightarrow> rng \<Rightarrow> (Sheet \<times> heap) result" where
  "nest_parts sheet_width sheet_height loaded g =
     (let sheet = new_sheet sheet_width sheet_height;
          h = alloc loaded;
          ps = [0 ..< length loaded]
      in case genetic_algorithm sheet_width sheet_height ps h 50 100 (1 / 10) g of
           Inl e \<Rightarrow> Inl e
         | Inr (best_order, h1, g1) \<Rightarrow>
             replay_loop sheet_width sheet_height ps h1 sheet best_order)"

text \<open>What \<^verbatim>\<open>main\<close> prints of the result: name and position of every part
  on the returned sheet.\<close>

definition placed_report :: "(Sheet \<times> heap) result \<Rightarrow> (string \<times> pos option) list result" where
  "placed_report res =
     (case res of
        Inl e \<Rightarrow> Inl e
      | Inr (sheet, h) \<Rightarrow> Inr (map (\<lambda>p. (filename (h p), position (h p))) (parts sheet)))"

section \<open>Vocabulary of the properties\<close>

text \<open>A bounding box moved by an offset, and the test "one rectangle is entirely
  to the left of, right of, below or above the other" with the boundary
  convention of the specification (rectangles are \<open>(min_x, min_y, max_x, max_y)\<close>).\<close>

definition translate :: "bbox \<Rightarrow> pos \<Rightarrow> bbox" where
  "translate b p =
     (case b of (min_x, min_y, max_x, max_y) \<Rightarrow>
      case p of (x, y) \<Rightarrow> (min_x + x, min_y + y, max_x + x, max_y + y))"

definition separated :: "bbox \<Rightarrow> bbox \<Rightarrow> bool" where
  "separated r1 r2 =
     (case r1 of (min_x1, min_y1, max_x1, max_y1) \<Rightarrow>
      case r2 of (min_x2, min_y2, max_x2, max_y2) \<Rightarrow>
      max_x1 \<le> min_x2 \<or> min_x1 \<ge> max_x2 \<or> max_y1 \<le> min_y2 \<or> min_y1 \<ge> max_y2)"

text \<open>Three parts used in the examples: a \<open>10 \<times> 10\<close> square, the same square
  drawn left of the origin, and a \<open>30 \<times> 30\<close> square.\<close>

definition part_a :: Part where
  "part_a = \<lparr>filename = ''a.dxf'', bounding_box = (0, 0, 10, 10), position = None\<rparr>"


definition part_c :: Part where
  "part_c = \<lparr>filename = ''c.dxf'', bounding_box = (0, 0, 30, 30), position = None\<rparr>"

text \<open>A rectangle lies on the sheet; every part of a list has its position
  attribute.\<close>

definition inside :: "Sheet \<Rightarrow> bbox \<Rightarrow> bool" where
  "inside sheet r =
     (case r of (min_x, min_y, max_x, max_y) \<Rightarrow>
      0 \<le> min_x \<and> max_x \<le> width sheet \<and> 0 \<le> min_y \<and> max_y \<le> height sheet)"

definition positioned :: "heap \<Rightarrow> ref list \<Rightarrow> bool" where
  "positioned h qs = list_all (\<lambda>q. position (h q) \<noteq> None) qs"

text \<open>The \<open>20 \<times> 10\<close> sheet after a first square was accepted at the origin,
  with a second square still to place.\<close>

definition heap_aa :: heap where
  "heap_aa = (alloc [part_a, part_a])(0 := part_a\<lparr>position := Some (0, 0)\<rparr>)"

definition sheet_a :: Sheet where
  "sheet_a = (new_sheet 20 10)\<lparr>parts := [0]\<rparr>"

text \<open>An individual is a valid permutation of \<open>[0, n)\<close>: no index twice, every
  index present.\<close>

definition is_permutation :: "nat \<Rightarrow> nat list \<Rightarrow> bool" where
  "is_permutation n order = (distinct order \<and> set order = set [0 ..< n])"

text \<open>The random tape that always yields 0.\<close>

definition zero_tape :: rng where
  "zero_tape = (\<lambda>_. 0)"

text \<open>A bounding box that lies on the empty sheet at no point of the lattice the
  scan visits.\<close>

definition fits_nowhere :: "int \<Rightarrow> int \<Rightarrow> bbox \<Rightarrow> bool" where
  "fits_nowhere w ht b =
     (\<forall>x\<in>set (py_range w 10). \<forall>y\<in>set (py_range ht 10).
        \<not> inside (new_sheet w ht) (translate b (of_int x, of_int y)))"

section \<open>The overlap test\<close>

lemma check_overlap_Some:
  "position (h q) = Some pq \<Longrightarrow>
   check_overlap h p pos q =
     Inr (\<not> separated (translate (bounding_box (h p)) pos) (translate (bounding_box (h q)) pq))"
  by (auto simp: check_overlap_def separated_def translate_def split: prod.splits)

lemma check_overlap_None:
  "position (h q) = None \<Longrightarrow> check_overlap h p pos q = Inl AttributeError"
  by (auto simp: check_overlap_def split: prod.splits)



section \<open>Accepting a part\<close>

text \<open>
  Claim C6. If \<^verbatim>\<open>can_place\<close> is false, \<^verbatim>\<open>add_part\<close> returns false and
  leaves the sheet and every part as they were; if it is true, \<^verbatim>\<open>add_part\<close>
  returns true, the part's position is the given one, the part is appended to
  the accepted list, and nothing else changes.
\<close>

theorem add_part_effect:
  "(can_place h sheet p pos = Inr False \<longrightarrow> add_part h sheet p pos = Inr (False, h, sheet))
   \<and> (can_place h sheet p pos = Inr True \<longrightarrow>
        add_part h sheet p pos =
          Inr (True, h(p := (h p)\<lparr>position := Some pos\<rparr>), sheet\<lparr>parts := parts sheet @ [p]\<rparr>))"
  by (simp add: add_part_def)

theorem add_part_effect_witness:
  "can_place (alloc [part_a]) (new_sheet 20 10) 0 (15, 0) = Inr False
   \<and> add_part (alloc [part_a]) (new_sheet 20 10) 0 (15, 0) =
        Inr (False, alloc [part_a], new_sheet 20 10)
   \<and> can_place (alloc [part_a]) (new_sheet 20 10) 0 (10, 0) = Inr True
   \<and> add_part (alloc [part_a]) (new_sheet 20 10) 0 (10, 0) =
        Inr (True, (alloc [part_a])(0 := (alloc [part_a] 0)\<lparr>position := Some (10, 0)\<rparr>),
             (new_sheet 20 10)\<lparr>parts := parts (new_sheet 20 10) @ [0]\<rparr>)"
proof -
  have f: "can_place (alloc [part_a]) (new_sheet 20 10) 0 (15, 0) = Inr False"
    by (simp add: can_place_def alloc_def part_a_def new_sheet_def)
  have t: "can_place (alloc [part_a]) (new_sheet 20 10) 0 (10, 0) = Inr True"
    by (simp add: can_place_def alloc_def part_a_def new_sheet_def)
  from f t
    add_part_effect [of "alloc [part_a]" "new_sheet 20 10" 0 "(15, 0)"]
    add_part_effect [of "alloc [part_a]" "new_sheet 20 10" 0 "(10, 0)"]
  show ?thesis by simp
qed

section \<open>Basic facts about the placement engine\<close>

lemma positioned_simps [simp]:
  "positioned h []"
  "positioned h (q # qs) = (position (h q) \<noteq> None \<and> positioned h qs)"
  "positioned h (qs @ rs) = (positioned h qs \<and> positioned h rs)"
  by (auto simp: positioned_def)

lemma positioned_iff: "positioned h qs = (\<forall>q\<in>set qs. position (h q) \<noteq> None)"
  by (simp add: positioned_def list_all_iff)

lemma can_place_loop_total:
  "positioned h qs \<Longrightarrow> \<exists>b. can_place_loop h p pos qs = Inr b"
proof (induction qs)
  case Nil
  show ?case by auto
next
  case (Cons q qs)
  then obtain pq where pq: "position (h q) = Some pq" by auto
  from Cons obtain b where "can_place_loop h p pos qs = Inr b" by auto
  with pq show ?case by (auto simp: check_overlap_Some [where h = h and q = q] split: bool.splits)
qed

lemma can_place_loop_True:
  "can_place_loop h p pos qs = Inr True \<Longrightarrow> q \<in> set qs \<Longrightarrow> check_overlap h p pos q = Inr False"
  by (induction qs) (auto split: sum.splits bool.splits)

lemma can_place_loop_False:
  "can_place_loop h p pos qs = Inr False \<Longrightarrow> \<exists>q\<in>set qs. check_overlap h p pos q = Inr True"
  by (induction qs) (auto split: sum.splits bool.splits)

lemma can_place_total:
  "positioned h (parts sheet) \<Longrightarrow> \<exists>b. can_place h sheet p pos = Inr b"
  by (auto simp: can_place_def can_place_loop_total split: prod.splits)

lemma can_place_True_inside:
  "can_place h sheet p pos = Inr True \<Longrightarrow> inside sheet (translate (bounding_box (h p)) pos)"
  by (auto simp: can_place_def inside_def translate_def split: prod.splits if_splits)

lemma can_place_True_separated:
  assumes "can_place h sheet p pos = Inr True" "q \<in> set (parts sheet)" "position (h q) = Some pq"
  shows "separated (translate (bounding_box (h p)) pos) (translate (bounding_box (h q)) pq)"
proof -
  from assms(1) have "can_place_loop h p pos (parts sheet) = Inr True"
    by (auto simp: can_place_def split: prod.splits if_splits)
  from can_place_loop_True [OF this assms(2)] assms(3) show ?thesis
    by (simp add: check_overlap_Some)
qed

lemma add_part_TrueD:
  "add_part h sheet p pos = Inr (True, h', sheet') \<Longrightarrow>
     can_place h sheet p pos = Inr True \<and> h' = h(p := (h p)\<lparr>position := Some pos\<rparr>) \<and>
     sheet' = sheet\<lparr>parts := parts sheet @ [p]\<rparr>"
  by (auto simp: add_part_def split: sum.splits bool.splits)

lemma add_part_FalseD:
  "add_part h sheet p pos = Inr (False, h', sheet') \<Longrightarrow>
     can_place h sheet p pos = Inr False \<and> h' = h \<and> sheet' = sheet"
  by (auto simp: add_part_def split: sum.splits bool.splits)

lemma add_part_total:
  "positioned h (parts sheet) \<Longrightarrow> \<exists>r. add_part h sheet p pos = Inr r"
proof -
  assume "positioned h (parts sheet)"
  from can_place_total [OF this, of p pos] obtain b where "can_place h sheet p pos = Inr b" ..
  then show ?thesis by (cases b) (auto simp: add_part_def)
qed

lemma scan_y_FalseD:
  "scan_y h sheet p x ys = Inr (False, h', sheet') \<Longrightarrow>
     h' = h \<and> sheet' = sheet \<and> (\<forall>y\<in>set ys. can_place h sheet p (of_int x, of_int y) = Inr False)"
proof (induction ys)
  case Nil
  then show ?case by simp
next
  case (Cons y ys)
  then show ?case
    by (auto split: sum.splits bool.splits dest!: add_part_FalseD add_part_TrueD)
qed

lemma scan_y_TrueD:
  "scan_y h sheet p x ys = Inr (True, h', sheet') \<Longrightarrow>
     \<exists>ys1 y ys2. ys = ys1 @ y # ys2 \<and>
       (\<forall>y'\<in>set ys1. can_place h sheet p (of_int x, of_int y') = Inr False) \<and>
       can_place h sheet p (of_int x, of_int y) = Inr True \<and>
       h' = h(p := (h p)\<lparr>position := Some (of_int x, of_int y)\<rparr>) \<and>
       sheet' = sheet\<lparr>parts := parts sheet @ [p]\<rparr>"
proof (induction ys)
  case Nil
  then show ?case by simp
next
  case (Cons y ys)
  show ?case
  proof (cases "can_place h sheet p (of_int x, of_int y) = Inr True")
    case True
    with Cons.prems have "h' = h(p := (h p)\<lparr>position := Some (of_int x, of_int y)\<rparr>)"
      "sheet' = sheet\<lparr>parts := parts sheet @ [p]\<rparr>"
      by (auto simp: add_part_def)
    with True show ?thesis by (intro exI [of _ "[]"] exI [of _ y] exI [of _ ys]) simp
  next
    case False
    with Cons.prems have f: "can_place h sheet p (of_int x, of_int y) = Inr False"
      and r: "scan_y h sheet p x ys = Inr (True, h', sheet')"
      by (auto simp: add_part_def split: sum.splits bool.splits)
    from Cons.IH [OF r] obtain ys1 y0 ys2 where
      "ys = ys1 @ y0 # ys2"
      "\<forall>y'\<in>set ys1. can_place h sheet p (of_int x, of_int y') = Inr False"
      "can_place h sheet p (of_int x, of_int y0) = Inr True"
      "h' = h(p := (h p)\<lparr>position := Some (of_int x, of_int y0)\<rparr>)"
      "sheet' = sheet\<lparr>parts := parts sheet @ [p]\<rparr>" by blast
    with f show ?thesis
      by (intro exI [of _ "y # ys1"] exI [of _ y0] exI [of _ ys2]) simp
  qed
qed

lemma scan_y_total:
  "positioned h (parts sheet) \<Longrightarrow> \<exists>r. scan_y h sheet p x ys = Inr r"
proof (induction ys)
  case Nil
  show ?case by auto
next
  case (Cons y ys)
  from add_part_total [OF Cons.prems, of p "(of_int x, of_int y)"]
  obtain b h1 s1 where a: "add_part h sheet p (of_int x, of_int y) = Inr (b, h1, s1)"
    by (metis prod_cases3)
  show ?case
  proof (cases b)
    case True
    with a show ?thesis by auto
  next
    case False
    with a add_part_FalseD [of h sheet p "(of_int x, of_int y)" h1 s1] Cons show ?thesis by auto
  qed
qed

section \<open>The candidate scan\<close>

lemma scan_x_FalseD:
  "scan_x h sheet p xs ys = Inr (False, h', sheet') \<Longrightarrow>
     h' = h \<and> sheet' = sheet \<and>
     (\<forall>x\<in>set xs. \<forall>y\<in>set ys. can_place h sheet p (of_int x, of_int y) = Inr False)"
proof (induction xs)
  case Nil
  then show ?case by simp
next
  case (Cons x xs)
  then show ?case
    by (auto split: sum.splits bool.splits dest!: scan_y_FalseD)
qed

lemma scan_x_TrueD:
  "scan_x h sheet p xs ys = Inr (True, h', sheet') \<Longrightarrow>
     \<exists>xs1 x xs2 ys1 y ys2. xs = xs1 @ x # xs2 \<and> ys = ys1 @ y # ys2 \<and>
       (\<forall>x'\<in>set xs1. \<forall>y'\<in>set ys. can_place h sheet p (of_int x', of_int y') = Inr False) \<and>
       (\<forall>y'\<in>set ys1. can_place h sheet p (of_int x, of_int y') = Inr False) \<and>
       can_place h sheet p (of_int x, of_int y) = Inr True \<and>
       h' = h(p := (h p)\<lparr>position := Some (of_int x, of_int y)\<rparr>) \<and>
       sheet' = sheet\<lparr>parts := parts sheet @ [p]\<rparr>"
proof (induction xs)
  case Nil
  then show ?case by simp
next
  case (Cons x xs)
  from Cons.prems obtain b h1 s1 where sy: "scan_y h sheet p x ys = Inr (b, h1, s1)"
    by (auto split: sum.splits)
  show ?case
  proof (cases b)
    case True
    with sy Cons.prems have "scan_y h sheet p x ys = Inr (True, h', sheet')" by simp
    from scan_y_TrueD [OF this] obtain ys1 y ys2 where
      "ys = ys1 @ y # ys2"
      "\<forall>y'\<in>set ys1. can_place h sheet p (of_int x, of_int y') = Inr False"
      "can_place h sheet p (of_int x, of_int y) = Inr True"
      "h' = h(p := (h p)\<lparr>position := Some (of_int x, of_int y)\<rparr>)"
      "sheet' = sheet\<lparr>parts := parts sheet @ [p]\<rparr>" by blast
    then show ?thesis
      by (intro exI [of _ "[]"] exI [of _ x] exI [of _ xs] exI [of _ ys1] exI [of _ y]
          exI [of _ ys2]) simp
  next
    case False
    with sy have syF: "scan_y h sheet p x ys = Inr (False, h1, s1)" by simp
    from scan_y_FalseD [OF this] have e: "h1 = h" "s1 = sheet"
      and row: "\<forall>y\<in>set ys. can_place h sheet p (of_int x, of_int y) = Inr False" by auto
    from Cons.prems syF e have "scan_x h sheet p xs ys = Inr (True, h', sheet')" by simp
    from Cons.IH [OF this] obtain xs1 x0 xs2 ys1 y ys2 where
      "xs = xs1 @ x0 # xs2" "ys = ys1 @ y # ys2"
      "\<forall>x'\<in>set xs1. \<forall>y'\<in>set ys. can_place h sheet p (of_int x', of_int y') = Inr False"
      "\<forall>y'\<in>set ys1. can_place h sheet p (of_int x0, of_int y') = Inr False"
      "can_place h sheet p (of_int x0, of_int y) = Inr True"
      "h' = h(p := (h p)\<lparr>position := Some (of_int x0, of_int y)\<rparr>)"
      "sheet' = sheet\<lparr>parts := parts sheet @ [p]\<rparr>" by blast
    with row show ?thesis
      by (intro exI [of _ "x # xs1"] exI [of _ x0] exI [of _ xs2] exI [of _ ys1] exI [of _ y]
          exI [of _ ys2]) simp
  qed
qed

lemma scan_x_total:
  "positioned h (parts sheet) \<Longrightarrow> \<exists>r. scan_x h sheet p xs ys = Inr r"
proof (induction xs)
  case Nil
  show ?case by auto
next
  case (Cons x xs)
  from scan_y_total [OF Cons.prems, of p x ys]
  obtain b h1 s1 where a: "scan_y h sheet p x ys = Inr (b, h1, s1)"
    by (metis prod_cases3)
  show ?case
  proof (cases b)
    case True
    with a show ?thesis by auto
  next
    case False
    with a scan_y_FalseD [of h sheet p x ys h1 s1] Cons show ?thesis by auto
  qed
qed

lemma sorted_wrt_less_before:
  fixes x :: int
  assumes "sorted_wrt (<) (xs1 @ x # xs2)" "x' \<in> set (xs1 @ x # xs2)" "x' < x"
  shows "x' \<in> set xs1"
  using assms by (auto simp: sorted_wrt_append)

lemma py_range_sorted: "0 < step \<Longrightarrow> sorted_wrt (<) (py_range stop step)"
  by (simp add: py_range_def sorted_wrt_map sorted_wrt_iff_nth_less)

lemma set_py_range_10: "set (py_range stop 10) = {x. 0 \<le> x \<and> x < stop \<and> 10 dvd x}"
proof -
  have "x \<in> set (py_range stop 10) \<longleftrightarrow> 0 \<le> x \<and> x < stop \<and> 10 dvd x" for x
  proof
    assume "x \<in> set (py_range stop 10)"
    then obtain k where "x = int k * 10" "k < nat ((stop + 9) div 10)"
      by (auto simp: py_range_def)
    then show "0 \<le> x \<and> x < stop \<and> 10 dvd x" by auto
  next
    assume a: "0 \<le> x \<and> x < stop \<and> 10 dvd x"
    then obtain j where j: "x = 10 * j" by (auto simp: dvd_def)
    with a have "0 \<le> j" "j < (stop + 9) div 10" by auto
    then have "nat j < nat ((stop + 9) div 10)" "x = int (nat j) * 10" using j by auto
    then show "x \<in> set (py_range stop 10)"
      unfolding py_range_def by (auto simp: image_iff intro!: bexI [of _ "nat j"])
  qed
  then show ?thesis by blast
qed

lemma try_place_TrueD:
  assumes "try_place w ht h sheet p = Inr (True, h', sheet')"
  shows "\<exists>x\<in>set (py_range w 10). \<exists>y\<in>set (py_range ht 10).
          can_place h sheet p (of_int x, of_int y) = Inr True \<and>
          h' = h(p := (h p)\<lparr>position := Some (of_int x, of_int y)\<rparr>) \<and>
          sheet' = sheet\<lparr>parts := parts sheet @ [p]\<rparr> \<and>
          (\<forall>x'\<in>set (py_range w 10). \<forall>y'\<in>set (py_range ht 10).
             x' < x \<or> (x' = x \<and> y' < y) \<longrightarrow>
             can_place h sheet p (of_int x', of_int y') = Inr False)"
proof -
  from assms have "scan_x h sheet p (py_range w 10) (py_range ht 10) = Inr (True, h', sheet')"
    by (simp add: try_place_def)
  from scan_x_TrueD [OF this] obtain xs1 x xs2 ys1 y ys2 where
    xs: "py_range w 10 = xs1 @ x # xs2" and ys: "py_range ht 10 = ys1 @ y # ys2"
    and rows: "\<forall>x'\<in>set xs1. \<forall>y'\<in>set (py_range ht 10).
                 can_place h sheet p (of_int x', of_int y') = Inr False"
    and row: "\<forall>y'\<in>set ys1. can_place h sheet p (of_int x, of_int y') = Inr False"
    and ok: "can_place h sheet p (of_int x, of_int y) = Inr True"
    and eff: "h' = h(p := (h p)\<lparr>position := Some (of_int x, of_int y)\<rparr>)"
             "sheet' = sheet\<lparr>parts := parts sheet @ [p]\<rparr>" by blast
  have sx: "sorted_wrt (<) (xs1 @ x # xs2)" using py_range_sorted [of 10 w] xs by simp
  have sy: "sorted_wrt (<) (ys1 @ y # ys2)" using py_range_sorted [of 10 ht] ys by simp
  have early: "can_place h sheet p (of_int x', of_int y') = Inr False"
    if "x' \<in> set (py_range w 10)" "y' \<in> set (py_range ht 10)" "x' < x \<or> (x' = x \<and> y' < y)"
    for x' y'
  proof (cases "x' < x")
    case True
    with sorted_wrt_less_before [OF sx] that(1) xs have "x' \<in> set xs1" by simp
    with rows that(2) show ?thesis by blast
  next
    case False
    with that(3) have "x' = x" "y' < y" by auto
    with sorted_wrt_less_before [OF sy] that(2) ys have "y' \<in> set ys1" by simp
    with row \<open>x' = x\<close> show ?thesis by blast
  qed
  have "x \<in> set (py_range w 10)" "y \<in> set (py_range ht 10)" using xs ys by simp_all
  with ok eff early show ?thesis by blast
qed

lemma try_place_FalseD:
  "try_place w ht h sheet p = Inr (False, h', sheet') \<Longrightarrow>
     h' = h \<and> sheet' = sheet \<and>
     (\<forall>x\<in>set (py_range w 10). \<forall>y\<in>set (py_range ht 10).
        can_place h sheet p (of_int x, of_int y) = Inr False)"
  unfolding try_place_def by (rule scan_x_FalseD)

lemma try_place_total:
  "positioned h (parts sheet) \<Longrightarrow> \<exists>r. try_place w ht h sheet p = Inr r"
  unfolding try_place_def by (rule scan_x_total)

text \<open>
  Claim C5. The candidate scan runs the outer loop over \<open>x\<close> and the inner loop
  over \<open>y\<close>, both over the multiples of 10 from 0 below the sheet's width and
  height, in ascending order. When it places the part, the committed position is
  a lattice point where \<^verbatim>\<open>can_place\<close> succeeds and \<^verbatim>\<open>can_place\<close>
  fails at every lattice point that is lexicographically smaller (earlier in
  row-major order); when it does not, \<^verbatim>\<open>can_place\<close> fails on the whole
  lattice and nothing changes. The scan returns whenever every part on the
  sheet has a position.
\<close>

theorem candidate_scan_first_fit:
  "(try_place w ht h sheet p = Inr (True, h', sheet') \<longrightarrow>
      (\<exists>x\<in>set (py_range w 10). \<exists>y\<in>set (py_range ht 10).
          can_place h sheet p (of_int x, of_int y) = Inr True \<and>
          h' = h(p := (h p)\<lparr>position := Some (of_int x, of_int y)\<rparr>) \<and>
          sheet' = sheet\<lparr>parts := parts sheet @ [p]\<rparr> \<and>
          (\<forall>x'\<in>set (py_range w 10). \<forall>y'\<in>set (py_range ht 10).
             x' < x \<or> (x' = x \<and> y' < y) \<longrightarrow>
             can_place h sheet p (of_int x', of_int y') = Inr False)))
   \<and> (try_place w ht h sheet p = Inr (False, h', sheet') \<longrightarrow>
        h' = h \<and> sheet' = sheet \<and>
        (\<forall>x\<in>set (py_range w 10). \<forall>y\<in>set (py_range ht 10).
           can_place h sheet p (of_int x, of_int y) = Inr False))
   \<and> (positioned h (parts sheet) \<longrightarrow> (\<exists>r. try_place w ht h sheet p = Inr r))
   \<and> set (py_range w 10) = {x. 0 \<le> x \<and> x < w \<and> 10 dvd x}
   \<and> sorted_wrt (<) (py_range w 10)"
proof (intro conjI impI)
  assume "try_place w ht h sheet p = Inr (True, h', sheet')"
  then show "\<exists>x\<in>set (py_range w 10). \<exists>y\<in>set (py_range ht 10).
          can_place h sheet p (of_int x, of_int y) = Inr True \<and>
          h' = h(p := (h p)\<lparr>position := Some (of_int x, of_int y)\<rparr>) \<and>
          sheet' = sheet\<lparr>parts := parts sheet @ [p]\<rparr> \<and>
          (\<forall>x'\<in>set (py_range w 10). \<forall>y'\<in>set (py_range ht 10).
             x' < x \<or> (x' = x \<and> y' < y) \<longrightarrow>
             can_place h sheet p (of_int x', of_int y') = Inr False)"
    by (rule try_place_TrueD)
next
  assume f: "try_place w ht h sheet p = Inr (False, h', sheet')"
  from try_place_FalseD [OF f] show "h' = h" by simp
  from try_place_FalseD [OF f] show "sheet' = sheet" by simp
  from try_place_FalseD [OF f]
  show "\<forall>x\<in>set (py_range w 10). \<forall>y\<in>set (py_range ht 10).
           can_place h sheet p (of_int x, of_int y) = Inr False" by simp
next
  assume "positioned h (parts sheet)"
  then show "\<exists>r. try_place w ht h sheet p = Inr r" by (rule try_place_total)
next
  show "set (py_range w 10) = {x. 0 \<le> x \<and> x < w \<and> 10 dvd x}" by (rule set_py_range_10)
  show "sorted_wrt (<) (py_range w 10)" by (rule py_range_sorted) simp
qed

lemmas eval_defs = try_place_def py_range_def upt_rec add_part_def can_place_def
  check_overlap_def alloc_def new_sheet_def

theorem candidate_scan_first_fit_witness:
  "try_place 20 10 heap_aa sheet_a 1 =
     Inr (True, heap_aa(1 := (heap_aa 1)\<lparr>position := Some (10, 0)\<rparr>),
          sheet_a\<lparr>parts := parts sheet_a @ [1]\<rparr>)
   \<and> can_place heap_aa sheet_a 1 (0, 0) = Inr False
   \<and> try_place 20 10 (alloc [part_c]) (new_sheet 20 10) 0 =
        Inr (False, alloc [part_c], new_sheet 20 10)
   \<and> can_place (alloc [part_c]) (new_sheet 20 10) 0 (10, 0) = Inr False
   \<and> positioned heap_aa (parts sheet_a)
   \<and> (\<exists>r. try_place 20 10 heap_aa sheet_a 1 = Inr r)"
proof -
  let ?h' = "heap_aa(1 := (heap_aa 1)\<lparr>position := Some (10, 0)\<rparr>)"
  let ?s' = "sheet_a\<lparr>parts := parts sheet_a @ [1]\<rparr>"
  have t: "try_place 20 10 heap_aa sheet_a 1 = Inr (True, ?h', ?s')"
    by (simp add: eval_defs heap_aa_def sheet_a_def part_a_def)
  have f: "try_place 20 10 (alloc [part_c]) (new_sheet 20 10) 0 =
             Inr (False, alloc [part_c], new_sheet 20 10)"
    by (simp add: eval_defs part_c_def)
  have p: "positioned heap_aa (parts sheet_a)"
    by (simp add: positioned_def heap_aa_def sheet_a_def)
  note T = candidate_scan_first_fit [of 20 10 heap_aa sheet_a 1 ?h' ?s']
  note F = candidate_scan_first_fit [of 20 10 "alloc [part_c]" "new_sheet 20 10" 0
      "alloc [part_c]" "new_sheet 20 10"]
  note Y = candidate_scan_first_fit [of 10 10 heap_aa sheet_a 1 ?h' ?s']
  have x0: "(0::int) \<in> set (py_range 20 10)" "(10::int) \<in> set (py_range 20 10)"
    using T by simp_all
  have y0: "(0::int) \<in> set (py_range 10 10)" using Y by simp
  from T t obtain x y where xy: "x \<in> set (py_range 20 10)" "y \<in> set (py_range 10 10)"
    and heq: "?h' = heap_aa(1 := (heap_aa 1)\<lparr>position := Some (of_int x, of_int y)\<rparr>)"
    and early: "\<forall>x'\<in>set (py_range 20 10). \<forall>y'\<in>set (py_range 10 10).
             x' < x \<or> (x' = x \<and> y' < y) \<longrightarrow>
             can_place heap_aa sheet_a 1 (of_int x', of_int y') = Inr False"
    by blast
  from heq have "position (?h' 1) =
      position ((heap_aa(1 := (heap_aa 1)\<lparr>position := Some (of_int x, of_int y)\<rparr>)) 1)"
    by simp
  then have "x = 10" by simp
  with early x0 y0 have e: "can_place heap_aa sheet_a 1 (of_int 0, of_int 0) = Inr False"
    by (metis zero_less_numeral)
  from F f x0 y0 have g: "can_place (alloc [part_c]) (new_sheet 20 10) 0 (of_int 10, of_int 0) = Inr False"
    by blast
  from T p have "\<exists>r. try_place 20 10 heap_aa sheet_a 1 = Inr r" by blast
  with t f p e g show ?thesis by simp
qed

section \<open>Fitness\<close>

lemma is_permutation_length: "is_permutation n order \<Longrightarrow> length order = n"
  unfolding is_permutation_def by (metis distinct_card card_atLeastLessThan diff_zero set_upt)


lemma try_place_True_effect:
  assumes "try_place w ht h sheet p = Inr (True, h', sheet')"
  shows "\<exists>pos. h' = h(p := (h p)\<lparr>position := Some pos\<rparr>) \<and>
           sheet' = sheet\<lparr>parts := parts sheet @ [p]\<rparr>"
  using try_place_TrueD [OF assms] by blast

lemma try_place_positioned:
  assumes "positioned h (parts sheet)" "try_place w ht h sheet p = Inr (b, h', sheet')"
  shows "positioned h' (parts sheet')"
proof (cases b)
  case True
  with assms(2) have "try_place w ht h sheet p = Inr (True, h', sheet')" by simp
  from try_place_True_effect [OF this] obtain pos where
    "h' = h(p := (h p)\<lparr>position := Some pos\<rparr>)"
    "sheet' = sheet\<lparr>parts := parts sheet @ [p]\<rparr>" by blast
  with assms(1) show ?thesis by (auto simp: positioned_iff)
next
  case False
  with assms try_place_FalseD [of w ht h sheet p h' sheet'] show ?thesis by simp
qed

lemma try_place_length:
  assumes "try_place w ht h sheet p = Inr (b, h', sheet')"
  shows "length (parts sheet') = length (parts sheet) + (if b then 1 else 0)"
proof (cases b)
  case True
  with assms have "try_place w ht h sheet p = Inr (True, h', sheet')" by simp
  from try_place_True_effect [OF this] True show ?thesis by auto
next
  case False
  with assms try_place_FalseD [of w ht h sheet p h' sheet'] show ?thesis by simp
qed

lemma fitness_loop_result:
  assumes "positioned h (parts sheet)" "\<forall>i\<in>set order. i < length ps"
  shows "(\<exists>h'. fitness_loop w ht ps h sheet order = Inr (\<infinity>, h')) \<or>
         (\<exists>h'. fitness_loop w ht ps h sheet order =
                 Inr (enat (length (parts sheet) + length order), h'))"
  using assms
proof (induction order arbitrary: h sheet)
  case Nil
  show ?case by simp
next
  case (Cons i order)
  from Cons.prems have i: "i < length ps" by simp
  from try_place_total [OF Cons.prems(1), of w ht "ps ! i"]
  obtain b h1 s1 where tp: "try_place w ht h sheet (ps ! i) = Inr (b, h1, s1)"
    by (metis prod_cases3)
  show ?case
  proof (cases b)
    case False
    with tp i show ?thesis by simp
  next
    case True
    from try_place_positioned [OF Cons.prems(1) tp] have p1: "positioned h1 (parts s1)" .
    from try_place_length [OF tp] True have l1: "length (parts s1) = Suc (length (parts sheet))"
      by simp
    from Cons.IH [OF p1] Cons.prems(2)
    have "(\<exists>h'. fitness_loop w ht ps h1 s1 order = Inr (\<infinity>, h')) \<or>
          (\<exists>h'. fitness_loop w ht ps h1 s1 order = Inr (enat (length (parts s1) + length order), h'))"
      by simp
    with tp True i l1 show ?thesis by simp
  qed
qed

lemma fitness_result:
  assumes "\<forall>i\<in>set order. i < length ps"
  shows "(\<exists>h'. fitness w ht ps h order = Inr (\<infinity>, h')) \<or>
         (\<exists>h'. fitness w ht ps h order = Inr (enat (length order), h'))"
  using fitness_loop_result [of h "new_sheet w ht" order ps w ht] assms
  by (simp add: fitness_def new_sheet_def)



section \<open>Crossover and mutation\<close>

lemma randint_InrD: "randint a b g = Inr (r, g') \<Longrightarrow> a \<le> r \<and> r \<le> b"
  by (auto simp: randint_def draw_def split: if_splits)
     (smt (verit) Euclidean_Rings.pos_mod_bound)

lemma randint_Inl_iff: "(\<exists>e. randint a b g = Inl e) = (b < a)"
  by (auto simp: randint_def draw_def)

lemma randint_Inl: "randint a b g = Inl e \<Longrightarrow> e = ValueError \<and> b < a"
  by (auto simp: randint_def draw_def split: if_splits)

lemma randint_total: "a \<le> b \<Longrightarrow> \<exists>r g'. randint a b g = Inr (r, g')"
  by (auto simp: randint_def draw_def)

lemma sample2_InrD:
  "sample2 xs g = Inr ((u, v), g') \<Longrightarrow>
     \<exists>i j. i < length xs \<and> j < length xs \<and> i \<noteq> j \<and> u = xs ! i \<and> v = xs ! j"
proof -
  assume a: "sample2 xs g = Inr ((u, v), g')"
  then have l: "2 \<le> length xs" by (auto simp: sample2_def split: if_splits)
  define i where "i = g 0 mod length xs"
  define k where "k = g (Suc 0) mod (length xs - 1)"
  define j where "j = (if k < i then k else k + 1)"
  from l have pos: "0 < length xs" "0 < length xs - 1" by linarith+
  have "i < length xs" unfolding i_def using pos(1) by (rule mod_less_divisor)
  have "k < length xs - 1" unfolding k_def using pos(2) by (rule mod_less_divisor)
  note ik = \<open>i < length xs\<close> \<open>k < length xs - 1\<close>
  from ik have "i < length xs" "k < length xs - 1" .
  then have "j < length xs" "i \<noteq> j" by (auto simp: j_def)
  moreover from a l have "u = xs ! i" "v = xs ! j"
    by (auto simp: sample2_def draw_def Let_def i_def j_def k_def)
  ultimately show ?thesis using \<open>i < length xs\<close> by blast
qed

lemma sample2_mem:
  "sample2 xs g = Inr ((u, v), g') \<Longrightarrow> u \<in> set xs \<and> v \<in> set xs"
  using sample2_InrD [of xs g u v g'] by (metis nth_mem)

lemma sample2_Inl: "sample2 xs g = Inl e \<Longrightarrow> e = ValueError \<and> length xs < 2"
  by (auto simp: sample2_def draw_def Let_def split: if_splits)

lemma sample2_total: "2 \<le> length xs \<Longrightarrow> \<exists>u v g'. sample2 xs g = Inr ((u, v), g')"
  by (auto simp: sample2_def draw_def Let_def)

lemma cut_permutation:
  assumes "is_permutation n p1" "is_permutation n p2"
  shows "is_permutation n (take k p1 @ filter (\<lambda>x. x \<notin> set (take k p1)) p2)"
proof -
  have "set (take k p1) \<subseteq> set p2" using assms set_take_subset [of k p1]
    by (auto simp: is_permutation_def)
  with assms show ?thesis by (auto simp: is_permutation_def)
qed

lemma swap_permutation:
  assumes "is_permutation n c" "i < length c" "j < length c"
  shows "is_permutation n ((c[i := c ! j])[j := c ! i])"
  using assms by (simp add: is_permutation_def distinct_swap)

lemma crossover_permutation:
  "is_permutation n p1 \<Longrightarrow> is_permutation n p2 \<Longrightarrow> crossover p1 p2 g = Inr (c, g') \<Longrightarrow>
     is_permutation n c"
  by (auto simp: crossover_def cut_permutation split: sum.splits)

lemma crossover_Inl: "crossover p1 p2 g = Inl e \<Longrightarrow> e = ValueError \<and> length p1 < 2"
  by (auto simp: crossover_def split: sum.splits dest!: randint_Inl)

lemma crossover_total: "2 \<le> length p1 \<Longrightarrow> \<exists>c g'. crossover p1 p2 g = Inr (c, g')"
  using randint_total [of 1 "int (length p1) - 1" g]
  by (auto simp: crossover_def)

lemma crossover_short: "length p1 < 2 \<Longrightarrow> crossover p1 p2 g = Inl ValueError"
  by (auto simp: crossover_def randint_def)

lemma mutate_permutation:
  assumes "is_permutation n c" "mutate rate c g = Inr (c', g')"
  shows "is_permutation n c'"
proof (cases "fst (random_float g) < rate")
  case False
  with assms show ?thesis by (auto simp: mutate_def split: prod.splits)
next
  case True
  with assms(2) obtain i j g1 where
    s: "sample2 [0 ..< length c] g1 = Inr ((i, j), g')" and c': "c' = (c[i := c ! j])[j := c ! i]"
    by (auto simp: mutate_def split: prod.splits sum.splits)
  from sample2_InrD [OF s] have "i < length c" "j < length c" by auto
  with assms(1) c' show ?thesis by (simp add: swap_permutation)
qed

lemma mutate_Inl: "mutate rate c g = Inl e \<Longrightarrow> e = ValueError \<and> length c < 2"
  by (auto simp: mutate_def split: prod.splits if_splits sum.splits dest!: sample2_Inl)

lemma mutate_total: "2 \<le> length c \<Longrightarrow> \<exists>c' g'. mutate rate c g = Inr (c', g')"
proof -
  assume "2 \<le> length c"
  then have "\<exists>u v g'. sample2 [0 ..< length c] (snd (random_float g)) = Inr ((u, v), g')"
    by (intro sample2_total) simp
  then show ?thesis by (auto simp: mutate_def split: prod.splits)
qed

lemma reproduce_permutation:
  assumes "\<forall>p\<in>set population. is_permutation n p"
    "reproduce rate k population g = Inr (next_generation, g')"
  shows "(\<forall>c\<in>set next_generation. is_permutation n c) \<and> length next_generation = 2 * k"
  using assms(2)
proof (induction k arbitrary: g next_generation)
  case 0
  then show ?case by simp
next
  case (Suc k)
  from Suc.prems obtain parent1 parent2 g1 child1 g2 child2 g3 child1' g4 child2' g5 rest where
    s: "sample2 (take 10 population) g = Inr ((parent1, parent2), g1)"
    and c1: "crossover parent1 parent2 g1 = Inr (child1, g2)"
    and c2: "crossover parent2 parent1 g2 = Inr (child2, g3)"
    and m1: "mutate rate child1 g3 = Inr (child1', g4)"
    and m2: "mutate rate child2 g4 = Inr (child2', g5)"
    and r: "reproduce rate k population g5 = Inr (rest, g')"
    and n: "next_generation = child1' # child2' # rest"
    by (auto split: sum.splits)
  from sample2_mem [OF s] have "parent1 \<in> set (take 10 population)"
    "parent2 \<in> set (take 10 population)" by auto
  then have "parent1 \<in> set population" "parent2 \<in> set population"
    by (auto dest: in_set_takeD)
  with assms(1) have p: "is_permutation n parent1" "is_permutation n parent2" by auto
  from crossover_permutation [OF p c1] m1 have "is_permutation n child1'"
    by (rule mutate_permutation)
  moreover from crossover_permutation [OF p(2) p(1) c2] m2 have "is_permutation n child2'"
    by (rule mutate_permutation)
  ultimately show ?case using Suc.IH [OF r] n by simp
qed

lemma reproduce_total:
  assumes "\<forall>p\<in>set population. is_permutation n p" "2 \<le> length population" "2 \<le> n"
  shows "\<exists>next_generation g'. reproduce rate k population g = Inr (next_generation, g')"
proof (induction k arbitrary: g)
  case 0
  show ?case by simp
next
  case (Suc k)
  from assms(2) have "2 \<le> length (take 10 population)" by simp
  from sample2_total [OF this] obtain parent1 parent2 g1 where
    s: "sample2 (take 10 population) g = Inr ((parent1, parent2), g1)" by blast
  from sample2_mem [OF s] have "parent1 \<in> set (take 10 population)"
    "parent2 \<in> set (take 10 population)" by auto
  then have "parent1 \<in> set population" "parent2 \<in> set population"
    by (auto dest: in_set_takeD)
  with assms(1) have p: "is_permutation n parent1" "is_permutation n parent2" by auto
  with assms(3) have l: "2 \<le> length parent1" "2 \<le> length parent2"
    by (simp_all add: is_permutation_length)
  from crossover_total [OF l(1)] obtain child1 g2 where
    c1: "crossover parent1 parent2 g1 = Inr (child1, g2)" by blast
  from crossover_total [OF l(2)] obtain child2 g3 where
    c2: "crossover parent2 parent1 g2 = Inr (child2, g3)" by blast
  from crossover_permutation [OF p c1] assms(3) have "2 \<le> length child1"
    by (simp add: is_permutation_length)
  from mutate_total [OF this] obtain child1' g4 where
    m1: "mutate rate child1 g3 = Inr (child1', g4)" by blast
  from crossover_permutation [OF p(2) p(1) c2] assms(3) have "2 \<le> length child2"
    by (simp add: is_permutation_length)
  from mutate_total [OF this] obtain child2' g5 where
    m2: "mutate rate child2 g4 = Inr (child2', g5)" by blast
  from Suc obtain rest g' where "reproduce rate k population g5 = Inr (rest, g')" by blast
  with s c1 c2 m1 m2 show ?case by simp
qed

text \<open>
  Claim C8. Whatever the random source yields, a child produced by
  \<^verbatim>\<open>crossover\<close> followed by \<^verbatim>\<open>mutate\<close> from two valid permutations of
  \<open>[0, n)\<close> is a valid permutation of \<open>[0, n)\<close>; for \<open>n \<ge> 2\<close> both calls
  return, so the child exists; and every individual of the next generation
  that \<^verbatim>\<open>genetic_algorithm\<close>'s inner loop builds from a population of valid
  permutations is a valid permutation.
\<close>

theorem crossover_mutate_permutation:
  "(is_permutation n parent1 \<and> is_permutation n parent2 \<and>
    crossover parent1 parent2 g = Inr (child, g1) \<and> mutate rate child g1 = Inr (child', g2)
      \<longrightarrow> is_permutation n child')
   \<and> (is_permutation n parent1 \<and> is_permutation n parent2 \<and> 2 \<le> n \<longrightarrow>
        (\<exists>c ga c' gb. crossover parent1 parent2 g = Inr (c, ga) \<and>
           mutate rate c ga = Inr (c', gb) \<and> is_permutation n c'))
   \<and> ((\<forall>p\<in>set population. is_permutation n p) \<and>
        reproduce rate k population g = Inr (next_generation, g3) \<longrightarrow>
        (\<forall>c\<in>set next_generation. is_permutation n c))"
proof (intro conjI impI)
  assume "is_permutation n parent1 \<and> is_permutation n parent2 \<and>
    crossover parent1 parent2 g = Inr (child, g1) \<and> mutate rate child g1 = Inr (child', g2)"
  then show "is_permutation n child'"
    using crossover_permutation mutate_permutation by blast
next
  assume a: "is_permutation n parent1 \<and> is_permutation n parent2 \<and> 2 \<le> n"
  then have "2 \<le> length parent1" using is_permutation_length [of n parent1] by simp
  from crossover_total [OF this] obtain c ga where
    c: "crossover parent1 parent2 g = Inr (c, ga)" by blast
  with a have pc: "is_permutation n c" using crossover_permutation by blast
  with a have "2 \<le> length c" using is_permutation_length [of n c] by simp
  from mutate_total [OF this] obtain c' gb where m: "mutate rate c ga = Inr (c', gb)" by blast
  from mutate_permutation [OF pc m] c m
  show "\<exists>c ga c' gb. crossover parent1 parent2 g = Inr (c, ga) \<and>
           mutate rate c ga = Inr (c', gb) \<and> is_permutation n c'" by blast
next
  assume "(\<forall>p\<in>set population. is_permutation n p) \<and>
        reproduce rate k population g = Inr (next_generation, g3)"
  then show "\<forall>c\<in>set next_generation. is_permutation n c"
    using reproduce_permutation by blast
qed

lemma zero_tape_shift: "(\<lambda>i. zero_tape (Suc i)) = zero_tape"
  by (simp add: zero_tape_def)

lemma draw_zero_tape: "draw zero_tape = (0, zero_tape)"
  by (simp add: draw_def zero_tape_def)

theorem crossover_mutate_permutation_witness:
  "is_permutation 3 [0, 1, 2] \<and> is_permutation 3 [2, 1, 0] \<and>
   crossover [0, 1, 2] [2, 1, 0] zero_tape = Inr ([0, 2, 1], zero_tape) \<and>
   mutate (1 / 10) [0, 2, 1] zero_tape = Inr ([2, 0, 1], zero_tape) \<and>
   is_permutation 3 [2, 0, 1] \<and>
   reproduce (1 / 10) 1 [[0, 1, 2], [2, 1, 0]] zero_tape =
     Inr ([[2, 0, 1], [0, 2, 1]], zero_tape) \<and>
   is_permutation 3 [0, 2, 1]"
proof -
  have p: "is_permutation 3 [0, 1, 2]" "is_permutation 3 [2, 1, 0]"
    by (auto simp: is_permutation_def upt_rec)
  have c: "crossover [0, 1, 2] [2, 1, 0] zero_tape = Inr ([0, 2, 1], zero_tape)"
    by (simp add: crossover_def randint_def draw_zero_tape)
  have c2: "crossover [2, 1, 0] [0, 1, 2] zero_tape = Inr ([2, 0, 1], zero_tape)"
    by (simp add: crossover_def randint_def draw_zero_tape)
  have m: "mutate (1 / 10) [0, 2, 1] zero_tape = Inr ([2, 0, 1], zero_tape)"
    by (simp add: mutate_def random_float_def sample2_def draw_zero_tape upt_rec)
  have m2: "mutate (1 / 10) [2, 0, 1] zero_tape = Inr ([0, 2, 1], zero_tape)"
    by (simp add: mutate_def random_float_def sample2_def draw_zero_tape upt_rec)
  have r: "reproduce (1 / 10) 1 [[0, 1, 2], [2, 1, 0]] zero_tape =
     Inr ([[2, 0, 1], [0, 2, 1]], zero_tape)"
    using c c2 m m2 by (simp add: sample2_def draw_zero_tape)
  note T = crossover_mutate_permutation [of 3 "[0, 1, 2]" "[2, 1, 0]" zero_tape "[0, 2, 1]"
      zero_tape "1 / 10" "[2, 0, 1]" zero_tape "[[0, 1, 2], [2, 1, 0]]" 1
      "[[2, 0, 1], [0, 2, 1]]" zero_tape]
  from T p c m have a: "is_permutation 3 [2, 0, 1]" by blast
  from p have "\<forall>q\<in>set [[0, 1, 2], [2, 1, 0]]. is_permutation 3 q" by simp
  with T r have "\<forall>q\<in>set [[2, 0, 1], [0, 2, 1]]. is_permutation 3 q" by blast
  then have b: "is_permutation 3 [0, 2, 1]" by simp
  from p c m a r b show ?thesis by simp
qed

section \<open>Fitness evaluation: totality and frame\<close>

lemma can_place_empty:
  "parts sheet = [] \<Longrightarrow>
     can_place h sheet p pos = Inr (inside sheet (translate (bounding_box (h p)) pos))"
  by (auto simp: can_place_def inside_def translate_def split: prod.splits)

lemma scan_y_none:
  "\<forall>y\<in>set ys. can_place h sheet p (of_int x, of_int y) = Inr False \<Longrightarrow>
     scan_y h sheet p x ys = Inr (False, h, sheet)"
  by (induction ys) (simp_all add: add_part_def)

lemma scan_x_none:
  "\<forall>x\<in>set xs. \<forall>y\<in>set ys. can_place h sheet p (of_int x, of_int y) = Inr False \<Longrightarrow>
     scan_x h sheet p xs ys = Inr (False, h, sheet)"
  by (induction xs) (simp_all add: scan_y_none)

lemma try_place_nowhere:
  assumes "fits_nowhere w ht (bounding_box (h p))"
  shows "try_place w ht h (new_sheet w ht) p = Inr (False, h, new_sheet w ht)"
proof -
  have "parts (new_sheet w ht) = []" by (simp add: new_sheet_def)
  with assms have "\<forall>x\<in>set (py_range w 10). \<forall>y\<in>set (py_range ht 10).
      can_place h (new_sheet w ht) p (of_int x, of_int y) = Inr False"
    by (simp add: can_place_empty fits_nowhere_def)
  then show ?thesis unfolding try_place_def by (rule scan_x_none)
qed

lemma fitness_single_nowhere:
  "fits_nowhere w ht (bounding_box (h p)) \<Longrightarrow> fitness w ht [p] h [0] = Inr (\<infinity>, h)"
  by (simp add: fitness_def try_place_nowhere)

text \<open>Frame: placing parts never changes a name or a bounding box.\<close>

lemma try_place_shape:
  assumes "try_place w ht h sheet p = Inr (b, h', sheet')"
  shows "bounding_box (h' q) = bounding_box (h q) \<and> filename (h' q) = filename (h q)"
proof (cases b)
  case True
  with assms have "try_place w ht h sheet p = Inr (True, h', sheet')" by simp
  from try_place_True_effect [OF this] show ?thesis by auto
next
  case False
  with assms try_place_FalseD [of w ht h sheet p h' sheet'] show ?thesis by simp
qed

lemma fitness_loop_shape:
  "fitness_loop w ht ps h sheet order = Inr (f, h') \<Longrightarrow>
     bounding_box (h' q) = bounding_box (h q) \<and> filename (h' q) = filename (h q)"
proof (induction order arbitrary: h sheet)
  case Nil
  then show ?case by simp
next
  case (Cons i order)
  from Cons.prems obtain b h1 s1 where i: "i < length ps"
    and tp: "try_place w ht h sheet (ps ! i) = Inr (b, h1, s1)"
    by (auto split: if_splits sum.splits)
  show ?case
  proof (cases b)
    case True
    with Cons.prems i tp have "fitness_loop w ht ps h1 s1 order = Inr (f, h')" by simp
    from Cons.IH [OF this] try_place_shape [OF tp, of q] show ?thesis by simp
  next
    case False
    with Cons.prems i tp have "h' = h1" by simp
    with try_place_shape [OF tp, of q] show ?thesis by simp
  qed
qed

lemma fitness_shape:
  "fitness w ht ps h order = Inr (f, h') \<Longrightarrow>
     bounding_box (h' q) = bounding_box (h q) \<and> filename (h' q) = filename (h q)"
  unfolding fitness_def by (rule fitness_loop_shape)

lemma fitness_total:
  assumes "\<forall>i\<in>set order. i < length ps"
  shows "\<exists>f h'. fitness w ht ps h order = Inr (f, h')"
  using fitness_result [OF assms, of w ht h] by blast

lemma fitness_keys_ok:
  assumes "\<forall>order\<in>set population. \<forall>i\<in>set order. i < length ps"
  shows "\<exists>keyed h'. fitness_keys w ht ps h population = Inr (keyed, h') \<and>
           map snd keyed = population"
  using assms
proof (induction population arbitrary: h)
  case Nil
  show ?case by simp
next
  case (Cons order population)
  then have "\<forall>i\<in>set order. i < length ps" by simp
  from fitness_total [OF this] obtain f h1 where f: "fitness w ht ps h order = Inr (f, h1)"
    by blast
  from Cons obtain keyed h2 where "fitness_keys w ht ps h1 population = Inr (keyed, h2)"
    "map snd keyed = population" by fastforce
  with f show ?case by simp
qed

lemma fitness_keys_shape:
  "fitness_keys w ht ps h population = Inr (keyed, h') \<Longrightarrow>
     bounding_box (h' q) = bounding_box (h q) \<and> filename (h' q) = filename (h q)"
proof (induction population arbitrary: h keyed)
  case Nil
  then show ?case by simp
next
  case (Cons order population)
  from Cons.prems obtain f h1 keyed1 where f: "fitness w ht ps h order = Inr (f, h1)"
    and k: "fitness_keys w ht ps h1 population = Inr (keyed1, h')"
    by (auto split: sum.splits)
  from Cons.IH [OF k] fitness_shape [OF f, of q] show ?case by simp
qed

lemma sort_population_ok:
  assumes "\<forall>order\<in>set population. \<forall>i\<in>set order. i < length ps"
  shows "\<exists>ranked h'. sort_population w ht ps h population = Inr (ranked, h') \<and>
           set ranked = set population \<and> length ranked = length population"
proof -
  from fitness_keys_ok [OF assms, of w ht h] obtain keyed h' where
    k: "fitness_keys w ht ps h population = Inr (keyed, h')" "map snd keyed = population"
    by blast
  have "set (map snd (sort_key fst keyed)) = set (map snd keyed)" by simp
  moreover have "length (map snd (sort_key fst keyed)) = length (map snd keyed)" by simp
  ultimately show ?thesis using k by (simp add: sort_population_def)
qed

lemma sort_population_shape:
  "sort_population w ht ps h population = Inr (ranked, h') \<Longrightarrow>
     bounding_box (h' q) = bounding_box (h q) \<and> filename (h' q) = filename (h q)"
  by (auto simp: sort_population_def split: sum.splits dest: fitness_keys_shape)

end
